theory Spec2Isabelle
  imports Main
begin

section \<open>Data model\<close>

text \<open>
  Modelled from the spec: the interface \<open>NodeInterface\<close> is imported from \<open>./index\<close>, which
  is not among the sources. Its fields are the ones \<open>relating.ts\<close> reads and writes:
  \<open>type\<close>, \<open>tags\<close>, \<open>tokens\<close>, \<open>index\<close> (the pair \<open>[start, end]\<close>), \<open>label\<close> and the two child
  lists \<open>left\<close> and \<open>right\<close>. A label that has not been assigned (\<open>undefined\<close>) is \<open>None\<close>.

  Nodes are JavaScript objects that the engine mutates in place. The model passes them
  by value: a node is the tree of everything below it. This is the program's behaviour
  whenever the nodes of the input sequence are distinct objects that share no children,
  which is what a chunker that allocates one object per chunk produces.
\<close>

datatype node = Node
  (type: string)
  (tags: "string list")
  (tokens: "string list")
  (index: "int \<times> int")
  (label: "string option")
  (left: "node list")
  (right: "node list")

text \<open>
  Modelled from the spec: the rule table \<open>relationships\<close> is imported from
  \<open>./rules/relationships\<close>, which is not among the sources. A rule has the fields the
  matcher reads from \<open>rel\<close>; the table itself is a parameter \<open>rels\<close> of every function below.
\<close>

record rule =
  rel_left :: "string list"
  rel_right :: "string list"
  rel_leftTokens :: "string list"
  rel_rightTokens :: "string list"
  rel_direction :: string
  rel_label :: string
  rel_delay :: int
  rel_maxDistance :: int

text \<open>The interface \<open>MatchResult\<close>.\<close>

record MatchResult =
  match_direction :: string
  match_label :: string

text \<open>
  The conjugator \<open>new Inflectors(t).conjugate("VBP")\<close> belongs to the package
  \<open>en-inflectors\<close>. It is a parameter \<open>cj\<close>; its argument is \<open>None\<close> when the token it is
  given is \<open>undefined\<close> (the first token of an empty token list).
\<close>

type_synonym conjugator = "string option \<Rightarrow> string"

section \<open>Helpers\<close>

text \<open>\<open>xs[0]\<close> of JavaScript: \<open>undefined\<close> on an empty array.\<close>

definition first :: "'a list \<Rightarrow> 'a option" where
  "first xs = (case xs of [] \<Rightarrow> None | x # _ \<Rightarrow> Some x)"

text \<open>\<open>nodes[i]\<close> of JavaScript: \<open>undefined\<close> out of range.\<close>

definition nodeAt :: "node list \<Rightarrow> nat \<Rightarrow> node option" where
  "nodeAt nodes i = (if i < length nodes then Some (nodes ! i) else None)"

text \<open>\<open>xs.indexOf(v)\<close>, with \<open>None\<close> for \<open>-1\<close>.\<close>

fun indexOf :: "'a list \<Rightarrow> 'a \<Rightarrow> nat option" where
  "indexOf [] v = None"
| "indexOf (x # xs) v = (if x = v then Some 0 else map_option Suc (indexOf xs v))"

text \<open>\<open>~xs.indexOf(v)\<close> for a value \<open>v\<close> that may be \<open>undefined\<close>.\<close>

definition found :: "string list \<Rightarrow> string option \<Rightarrow> bool" where
  "found xs v = (case v of None \<Rightarrow> False | Some s \<Rightarrow> indexOf xs s \<noteq> None)"

definition contractions :: "string list" where
  "contractions = [CHR 0x27 # ''m'', CHR 0x27 # ''s'', CHR 0x27 # ''d'',
                   CHR 0x27 # ''ll'', CHR 0x27 # ''re'', CHR 0x27 # ''ve'']"

definition replacements :: "string list" where
  "replacements = [''am'', ''is'', ''would'', ''will'', ''are'', ''have'']"

definition deContract :: "string \<Rightarrow> string" where
  "deContract token =
     (case indexOf contractions token of
        Some ci \<Rightarrow> replacements ! ci
      | None \<Rightarrow> token)"

text \<open>
  \<open>new Inflectors(deContract(n.tokens[0])).conjugate("VBP")\<close>: an \<open>undefined\<close> first token
  is not a contraction and reaches the conjugator as it is.
\<close>

definition lemmaOf :: "conjugator \<Rightarrow> node \<Rightarrow> string" where
  "lemmaOf cj n = cj (map_option deContract (first (tokens n)))"

definition findBy_label :: "string \<Rightarrow> node list \<Rightarrow> bool" where
  "findBy_label lab nodes = (List.find (\<lambda>node. label node = Some lab) nodes \<noteq> None)"

text \<open>The three mutations of a node: \<open>n.label = lab\<close>, \<open>n.right.push(c)\<close>, \<open>n.left.push(c)\<close>.\<close>

definition setLabel :: "string \<Rightarrow> node \<Rightarrow> node" where
  "setLabel lab n = Node (type n) (tags n) (tokens n) (index n) (Some lab) (left n) (right n)"

definition pushRight :: "node \<Rightarrow> node \<Rightarrow> node" where
  "pushRight c n = Node (type n) (tags n) (tokens n) (index n) (label n) (left n) (right n @ [c])"

definition pushLeft :: "node \<Rightarrow> node \<Rightarrow> node" where
  "pushLeft c n = Node (type n) (tags n) (tokens n) (index n) (label n) (left n @ [c]) (right n)"

text \<open>\<open>nodes.splice(i, 1)\<close>.\<close>

definition splice1 :: "nat \<Rightarrow> 'a list \<Rightarrow> 'a list" where
  "splice1 i xs = take i xs @ drop (Suc i) xs"

section \<open>Root identifier\<close>

definition vbs :: "string list" where
  "vbs = [''VP'', ''VB'', ''VBN'']"

definition pa :: "string list" where
  "pa = [''VBZ'', ''VB'', ''VBP'', ''VBD'', ''MD'', ''VBN'']"

definition oe :: "string list" where
  "oe = [''be'', ''have'', ''do'', ''will'', ''shall'', ''may'', ''can'']"

text \<open>
  The body of the loop of \<open>identifyRoot\<close> for the node \<open>node\<close> and the three nodes after it
  (\<open>None\<close> where the sequence has ended): \<open>Some k\<close> when the \<open>continue\<close> of source line \<open>k\<close>
  is taken, \<open>None\<close> when control reaches \<open>nodes[i].label = "ROOT"\<close>.
\<close>

definition skipLine ::
  "conjugator \<Rightarrow> node \<Rightarrow> node option \<Rightarrow> node option \<Rightarrow> node option \<Rightarrow> nat option" where
  "skipLine cj node nx1 nx2 nx3 =
     (if \<not> found vbs (Some (type node)) then Some 50
      else if found pa (first (tags node)) \<and> nx1 \<noteq> None then
        (if found vbs (Some (type (the nx1))) then Some 54
         else if first (tags (the nx1)) = Some ''RB'' \<and> nx2 \<noteq> None then
           (if found vbs (Some (type (the nx2))) then Some 57
            else if nx3 \<noteq> None \<and> type (the nx2) = ''NP'' \<and> found vbs (Some (type (the nx3)))
              then Some 58
            else None)
         else if nx2 \<noteq> None \<and> fst (index node) = 0 then
           (if type (the nx1) = ''NP'' \<and> found vbs (Some (type (the nx2))) then Some 63
            else if nx3 \<noteq> None \<and> type (the nx1) = ''NP'' \<and> first (tags (the nx2)) = Some ''RB''
                    \<and> found vbs (Some (type (the nx3)))
              then Some 64
            else None)
         else if nx2 \<noteq> None \<and> found oe (Some (lemmaOf cj (the nx1)))
                 \<and> found vbs (Some (type (the nx2)))
           then Some 66
         else None)
      else None)"

function identifyLoop :: "conjugator \<Rightarrow> nat \<Rightarrow> node list \<Rightarrow> node list" where
  "identifyLoop cj i nodes =
     (if i < length nodes then
        (if skipLine cj (nodes ! i) (nodeAt nodes (i + 1)) (nodeAt nodes (i + 2))
              (nodeAt nodes (i + 3)) \<noteq> None
         then identifyLoop cj (i + 1) nodes
         else nodes[i := setLabel ''ROOT'' (nodes ! i)])
      else nodes)"
  by pat_completeness auto
termination
  by (relation "measure (\<lambda>(cj, i, nodes). length nodes - i)") auto

declare identifyLoop.simps [simp del]

definition identifyRoot :: "conjugator \<Rightarrow> node list \<Rightarrow> node list" where
  "identifyRoot cj nodes = identifyLoop cj 0 nodes"

section \<open>Rule matcher\<close>

text \<open>
  One turn of the loop of \<open>matchNodes\<close>: \<open>True\<close> when one of the \<open>continue\<close> branches is taken
  for the rule \<open>rel\<close>, \<open>False\<close> when the final \<open>else\<close> makes it the match.
\<close>

definition rejects :: "conjugator \<Rightarrow> rule \<Rightarrow> node \<Rightarrow> node \<Rightarrow> int \<Rightarrow> bool" where
  "rejects cj rel l r iteration =
     (if rel_left rel \<noteq> [] \<and> indexOf (rel_left rel) (type l) = None then True
      else if rel_right rel \<noteq> [] \<and> indexOf (rel_right rel) (type r) = None then True
      else if rel_delay rel \<noteq> - 1 \<and> iteration \<le> rel_delay rel then True
      else if rel_maxDistance rel \<noteq> - 1
              \<and> (fst (index r) - snd (index l)) - 1 > rel_maxDistance rel then True
      else if rel_direction rel = ''<-'' \<and> label r = Some ''ROOT'' then True
      else if rel_direction rel = ''->'' \<and> label l = Some ''ROOT'' then True
      else if rel_label rel = ''NSUBJ'' \<and> rel_direction rel = ''->''
              \<and> findBy_label ''NSUBJ'' (left r) then True
      else if rel_label rel = ''NSUBJPASS'' \<and> rel_direction rel = ''->''
              \<and> findBy_label ''NSUBJPASS'' (left r) then True
      else if rel_leftTokens rel \<noteq> [] \<and> indexOf (rel_leftTokens rel) (lemmaOf cj l) = None
        then True
      else if rel_rightTokens rel \<noteq> [] \<and> indexOf (rel_rightTokens rel) (lemmaOf cj r) = None
        then True
      else False)"

text \<open>The loop over the table: the value of the variable \<open>match\<close> when the loop ends.\<close>

fun matchLoop :: "conjugator \<Rightarrow> rule list \<Rightarrow> node \<Rightarrow> node \<Rightarrow> int \<Rightarrow> rule option" where
  "matchLoop cj [] l r iteration = None"
| "matchLoop cj (rel # rels) l r iteration =
     (if rejects cj rel l r iteration then matchLoop cj rels l r iteration else Some rel)"

definition matchNodes ::
  "rule list \<Rightarrow> conjugator \<Rightarrow> node \<Rightarrow> node \<Rightarrow> int \<Rightarrow> MatchResult option" where
  "matchNodes rels cj l r iteration =
     (case matchLoop cj rels l r iteration of
        None \<Rightarrow> None
      | Some m \<Rightarrow> Some \<lparr>match_direction = rel_direction m, match_label = rel_label m\<rparr>)"

section \<open>Reduction engine\<close>

text \<open>
  The body of the \<open>for\<close> loop of \<open>buildRelationships\<close> at position \<open>l\<close>. The loop only reaches
  positions with \<open>l + 1 < length nodes\<close> (lemma \<open>spliceStep_length\<close> below).
\<close>

definition spliceStep :: "rule list \<Rightarrow> conjugator \<Rightarrow> int \<Rightarrow> nat \<Rightarrow> node list \<Rightarrow> node list" where
  "spliceStep rels cj iteration l nodes =
     (let leftNode = nodes ! l; rightNode = nodes ! (l + 1) in
      case matchNodes rels cj leftNode rightNode iteration of
        None \<Rightarrow> nodes
      | Some m \<Rightarrow>
          if match_direction m = ''<-'' then
            splice1 (l + 1) (nodes[l := pushRight (setLabel (match_label m) rightNode) leftNode])
          else if match_direction m = ''->'' then
            splice1 l (nodes[l + 1 := pushLeft (setLabel (match_label m) leftNode) rightNode])
          else nodes)"

text \<open>
  \<open>for (l = nodes.length - 2; l >= 0; l--)\<close>: \<open>scanFrom \<dots> k nodes\<close> runs the body for
  \<open>l = k - 1\<close> down to \<open>0\<close>, so one pass is \<open>scanFrom \<dots> (length nodes - 1) nodes\<close>.
\<close>

fun scanFrom :: "rule list \<Rightarrow> conjugator \<Rightarrow> int \<Rightarrow> nat \<Rightarrow> node list \<Rightarrow> node list" where
  "scanFrom rels cj iteration 0 nodes = nodes"
| "scanFrom rels cj iteration (Suc l) nodes =
     scanFrom rels cj iteration l (spliceStep rels cj iteration l nodes)"

text \<open>
  The \<open>while\<close> loop, returning the final value of \<open>iteration\<close> (the number of passes made)
  beside the sequence. The recursion limit is an integer.
\<close>

function buildLoop ::
  "rule list \<Rightarrow> conjugator \<Rightarrow> int \<Rightarrow> int \<Rightarrow> node list \<Rightarrow> int \<times> node list" where
  "buildLoop rels cj iteration recursionLimit nodes =
     (if iteration < recursionLimit \<and> length nodes > 1 then
        buildLoop rels cj (iteration + 1) recursionLimit
          (scanFrom rels cj iteration (length nodes - 1) nodes)
      else (iteration, nodes))"
  by pat_completeness auto
termination
  by (relation "measure (\<lambda>(rels, cj, iteration, recursionLimit, nodes).
        nat (recursionLimit - iteration))") auto

declare buildLoop.simps [simp del]

definition buildRelationships :: "rule list \<Rightarrow> conjugator \<Rightarrow> node list \<Rightarrow> int \<Rightarrow> node list" where
  "buildRelationships rels cj nodes recursionLimit = snd (buildLoop rels cj 0 recursionLimit nodes)"

text \<open>The default export of the module.\<close>

definition relating :: "rule list \<Rightarrow> conjugator \<Rightarrow> node list \<Rightarrow> int \<Rightarrow> node list" where
  "relating rels cj nodes recursionLimit =
     buildRelationships rels cj (identifyRoot cj nodes) recursionLimit"

section \<open>Auxiliary definitions for the properties\<close>

subsection \<open>The matcher as the specification words it\<close>

text \<open>
  The conditions of section 4.2 of the specification for one rule, as one conjunction:
  type sets, delay, distance, root protection, duplicate-subject protection, token lemmas.
  It is compared with the \<open>if\<close> chain of the source in \<open>rejects_iff\<close>.
\<close>

definition spec_rule_passes :: "conjugator \<Rightarrow> rule \<Rightarrow> node \<Rightarrow> node \<Rightarrow> int \<Rightarrow> bool" where
  "spec_rule_passes cj rel l r iteration \<longleftrightarrow>
     (rel_left rel = [] \<or> type l \<in> set (rel_left rel)) \<and>
     (rel_right rel = [] \<or> type r \<in> set (rel_right rel)) \<and>
     \<not> (rel_delay rel \<noteq> - 1 \<and> iteration \<le> rel_delay rel) \<and>
     \<not> (rel_maxDistance rel \<noteq> - 1 \<and> fst (index r) - snd (index l) - 1 > rel_maxDistance rel) \<and>
     \<not> (rel_direction rel = ''<-'' \<and> label r = Some ''ROOT'') \<and>
     \<not> (rel_direction rel = ''->'' \<and> label l = Some ''ROOT'') \<and>
     \<not> (rel_label rel = ''NSUBJ'' \<and> rel_direction rel = ''->''
          \<and> (\<exists>c \<in> set (left r). label c = Some ''NSUBJ'')) \<and>
     \<not> (rel_label rel = ''NSUBJPASS'' \<and> rel_direction rel = ''->''
          \<and> (\<exists>c \<in> set (left r). label c = Some ''NSUBJPASS'')) \<and>
     (rel_leftTokens rel = [] \<or> lemmaOf cj l \<in> set (rel_leftTokens rel)) \<and>
     (rel_rightTokens rel = [] \<or> lemmaOf cj r \<in> set (rel_rightTokens rel))"

subsection \<open>One pass as a fold from the right\<close>

text \<open>
  What the body of the \<open>for\<close> loop does to the node \<open>x\<close> at the current position and the
  part \<open>acc\<close> of the sequence to its right, which the loop has already visited.
\<close>

definition absorb :: "rule list \<Rightarrow> conjugator \<Rightarrow> int \<Rightarrow> node \<Rightarrow> node list \<Rightarrow> node list" where
  "absorb rels cj iteration x acc =
     (case acc of
        [] \<Rightarrow> [x]
      | r # rs \<Rightarrow>
          (case matchNodes rels cj x r iteration of
             None \<Rightarrow> x # r # rs
           | Some m \<Rightarrow>
               if match_direction m = ''<-'' then pushRight (setLabel (match_label m) r) x # rs
               else if match_direction m = ''->'' then pushLeft (setLabel (match_label m) x) r # rs
               else x # r # rs))"

subsection \<open>Predicates on nodes and forests\<close>

definition isRoot :: "node \<Rightarrow> bool" where
  "isRoot n = (label n = Some ''ROOT'')"

text \<open>A node without its children.\<close>

definition shallow :: "node \<Rightarrow> string \<times> string list \<times> string list \<times> (int \<times> int) \<times> string option" where
  "shallow n = (type n, tags n, tokens n, index n, label n)"

text \<open>A node with its label cleared.\<close>

definition unlabel :: "node \<Rightarrow> node" where
  "unlabel n = Node (type n) (tags n) (tokens n) (index n) None (left n) (right n)"

text \<open>The number of nodes labelled \<open>ROOT\<close> in the tree below a node, the node included.\<close>

fun rootCount :: "node \<Rightarrow> nat" where
  "rootCount (Node ty tg tk ix lab ls rs) =
     (if lab = Some ''ROOT'' then 1 else 0)
       + sum_list (map rootCount ls) + sum_list (map rootCount rs)"

definition forestRoots :: "node list \<Rightarrow> nat" where
  "forestRoots ns = sum_list (map rootCount ns)"

text \<open>The top-level nodes labelled \<open>ROOT\<close>, in order, without their children.\<close>

definition topRoots ::
  "node list \<Rightarrow> (string \<times> string list \<times> string list \<times> (int \<times> int) \<times> string option) list" where
  "topRoots ns = map shallow (filter isRoot ns)"

text \<open>No node labelled \<open>ROOT\<close> in a child list, at any depth below the node.\<close>

fun noRootBelow :: "node \<Rightarrow> bool" where
  "noRootBelow (Node ty tg tk ix lab ls rs) =
     ((\<forall>c \<in> set ls. label c \<noteq> Some ''ROOT'' \<and> noRootBelow c)
      \<and> (\<forall>c \<in> set rs. label c \<noteq> Some ''ROOT'' \<and> noRootBelow c))"

text \<open>
  At most one child labelled \<open>NSUBJ\<close> and at most one labelled \<open>NSUBJPASS\<close> in the left child
  list of the node and of every node below it.
\<close>

fun singleSubject :: "node \<Rightarrow> bool" where
  "singleSubject (Node ty tg tk ix lab ls rs) =
     (length (filter (\<lambda>c. label c = Some ''NSUBJ'') ls) \<le> 1
      \<and> length (filter (\<lambda>c. label c = Some ''NSUBJPASS'') ls) \<le> 1
      \<and> (\<forall>c \<in> set ls. singleSubject c)
      \<and> (\<forall>c \<in> set rs. singleSubject c))"

text \<open>The loop of \<open>identifyRoot\<close> takes a \<open>continue\<close> at position \<open>i\<close>.\<close>

definition skipped :: "conjugator \<Rightarrow> node list \<Rightarrow> nat \<Rightarrow> bool" where
  "skipped cj nodes i \<longleftrightarrow>
     skipLine cj (nodes ! i) (nodeAt nodes (i + 1)) (nodeAt nodes (i + 2)) (nodeAt nodes (i + 3))
       \<noteq> None"

subsection \<open>Example data\<close>

text \<open>
  A conjugator for the examples: a few irregular forms go to their lemma, every other
  token is returned unchanged. The general theorems hold for every conjugator.
\<close>

definition sampleConj :: conjugator where
  "sampleConj t =
     (case t of
        None \<Rightarrow> ''''
      | Some s \<Rightarrow>
          if s \<in> set [''is'', ''am'', ''are'', ''was'', ''were'', ''been''] then ''be''
          else if s \<in> set [''has'', ''had''] then ''have''
          else if s \<in> set [''does'', ''did''] then ''do''
          else s)"

definition ex_np :: node where
  "ex_np = Node ''NP'' [''DT'', ''NN''] [''the'', ''cat''] (0, 1) None [] []"

definition ex_vbz :: node where
  "ex_vbz = Node ''VBZ'' [''VBZ''] [''sits''] (2, 2) None [] []"

definition ex_rule :: "string list \<Rightarrow> string list \<Rightarrow> string \<Rightarrow> string \<Rightarrow> rule" where
  "ex_rule ls rs d lab =
     \<lparr>rel_left = ls, rel_right = rs, rel_leftTokens = [], rel_rightTokens = [],
      rel_direction = d, rel_label = lab, rel_delay = - 1, rel_maxDistance = - 1\<rparr>"

definition ex_near :: rule where
  "ex_near = \<lparr>rel_left = [], rel_right = [], rel_leftTokens = [], rel_rightTokens = [],
      rel_direction = ''->'', rel_label = ''DEP'', rel_delay = - 1, rel_maxDistance = 0\<rparr>"

definition ex_span :: "int \<Rightarrow> int \<Rightarrow> node" where
  "ex_span s e = Node ''NP'' [''NN''] [''cat''] (s, e) None [] []"

definition ex_tok :: "string \<Rightarrow> string \<Rightarrow> string \<Rightarrow> int \<Rightarrow> node" where
  "ex_tok ty tag tok i = Node ty [tag] [tok] (i, i) None [] []"

definition ex_subj :: rule where
  "ex_subj = ex_rule [''NP''] [''VP''] ''->'' ''NSUBJ''"

definition ex_obj :: rule where
  "ex_obj = ex_rule [''VP''] [''NP''] ''<-'' ''DOBJ''"

definition ex_sentence :: "node list" where
  "ex_sentence = [ex_tok ''NP'' ''NNS'' ''dogs'' 0, ex_tok ''NP'' ''NNS'' ''cats'' 1,
                  ex_tok ''VP'' ''VBD'' ''chased'' 2, ex_tok ''NP'' ''NNS'' ''mice'' 3]"

section \<open>Lemmas\<close>

subsection \<open>Lookups\<close>

lemma indexOf_None_iff: "indexOf xs v = None \<longleftrightarrow> v \<notin> set xs"
  by (induction xs) auto

lemma found_Some_iff: "found xs (Some s) \<longleftrightarrow> s \<in> set xs"
  by (simp add: found_def indexOf_None_iff)

lemma findBy_label_iff: "findBy_label lab ns \<longleftrightarrow> (\<exists>c \<in> set ns. label c = Some lab)"
  by (auto simp: findBy_label_def find_None_iff)

lemma deContract_other: "token \<notin> set contractions \<Longrightarrow> deContract token = token"
  by (simp add: deContract_def indexOf_None_iff [THEN iffD2])

subsection \<open>Node updates and the predicates on nodes\<close>

lemma setLabel_sel [simp]:
  "type (setLabel lab n) = type n" "tags (setLabel lab n) = tags n"
  "tokens (setLabel lab n) = tokens n" "index (setLabel lab n) = index n"
  "label (setLabel lab n) = Some lab" "left (setLabel lab n) = left n"
  "right (setLabel lab n) = right n"
  by (simp_all add: setLabel_def)

lemma pushRight_sel [simp]:
  "type (pushRight c n) = type n" "tags (pushRight c n) = tags n"
  "tokens (pushRight c n) = tokens n" "index (pushRight c n) = index n"
  "label (pushRight c n) = label n" "left (pushRight c n) = left n"
  "right (pushRight c n) = right n @ [c]"
  by (simp_all add: pushRight_def)

lemma pushLeft_sel [simp]:
  "type (pushLeft c n) = type n" "tags (pushLeft c n) = tags n"
  "tokens (pushLeft c n) = tokens n" "index (pushLeft c n) = index n"
  "label (pushLeft c n) = label n" "left (pushLeft c n) = left n @ [c]"
  "right (pushLeft c n) = right n"
  by (simp_all add: pushLeft_def)

lemma unlabel_setLabel [simp]: "unlabel (setLabel lab n) = unlabel n"
  by (simp add: unlabel_def)

lemma noRootBelow_sel:
  "noRootBelow n \<longleftrightarrow>
     (\<forall>c \<in> set (left n). label c \<noteq> Some ''ROOT'' \<and> noRootBelow c)
     \<and> (\<forall>c \<in> set (right n). label c \<noteq> Some ''ROOT'' \<and> noRootBelow c)"
  by (cases n) simp

lemma singleSubject_sel:
  "singleSubject n \<longleftrightarrow>
     length (filter (\<lambda>c. label c = Some ''NSUBJ'') (left n)) \<le> 1
     \<and> length (filter (\<lambda>c. label c = Some ''NSUBJPASS'') (left n)) \<le> 1
     \<and> (\<forall>c \<in> set (left n). singleSubject c)
     \<and> (\<forall>c \<in> set (right n). singleSubject c)"
  by (cases n) simp

lemma rootCount_sel:
  "rootCount n = (if isRoot n then 1 else 0)
      + sum_list (map rootCount (left n)) + sum_list (map rootCount (right n))"
  by (cases n) (simp add: isRoot_def)

lemma noRootBelow_setLabel [simp]: "noRootBelow (setLabel lab n) = noRootBelow n"
  by (subst (1 2) noRootBelow_sel) simp

lemma singleSubject_setLabel [simp]: "singleSubject (setLabel lab n) = singleSubject n"
  by (subst (1 2) singleSubject_sel) simp

lemma rootCount_setLabel:
  "lab \<noteq> ''ROOT'' \<Longrightarrow> \<not> isRoot n \<Longrightarrow> rootCount (setLabel lab n) = rootCount n"
  by (subst (1 2) rootCount_sel) (simp add: isRoot_def)

lemma rootCount_pushRight: "rootCount (pushRight c n) = rootCount n + rootCount c"
  by (subst (1 2) rootCount_sel) (simp add: isRoot_def)

lemma rootCount_pushLeft: "rootCount (pushLeft c n) = rootCount n + rootCount c"
  by (subst (1 2) rootCount_sel) (simp add: isRoot_def)

lemma forestRoots_simps [simp]:
  "forestRoots [] = 0" "forestRoots (x # xs) = rootCount x + forestRoots xs"
  "forestRoots (xs @ ys) = forestRoots xs + forestRoots ys"
  by (simp_all add: forestRoots_def)

lemma topRoots_simps [simp]:
  "topRoots [] = []"
  "topRoots (x # xs) = (if isRoot x then [shallow x] else []) @ topRoots xs"
  "topRoots (xs @ ys) = topRoots xs @ topRoots ys"
  by (simp_all add: topRoots_def)

subsection \<open>The rule matcher\<close>

text \<open>
  The \<open>if\<close> chain of the source rejects a rule exactly when the conjunction of the
  specification fails, and the loop over the table is a search for the first rule that
  is not rejected.
\<close>

lemma rejects_iff: "rejects cj rel l r iteration \<longleftrightarrow> \<not> spec_rule_passes cj rel l r iteration"
  unfolding rejects_def spec_rule_passes_def indexOf_None_iff findBy_label_iff
  by auto

lemma matchLoop_find:
  "matchLoop cj rels l r iteration = List.find (\<lambda>rel. \<not> rejects cj rel l r iteration) rels"
  by (induction rels) auto

lemma matchNodes_find:
  "matchNodes rels cj l r iteration =
     (case List.find (\<lambda>rel. spec_rule_passes cj rel l r iteration) rels of
        None \<Rightarrow> None
      | Some rel \<Rightarrow> Some \<lparr>match_direction = rel_direction rel, match_label = rel_label rel\<rparr>)"
  by (simp add: matchNodes_def matchLoop_find rejects_iff)

lemma find_first:
  "P x \<Longrightarrow> \<forall>p \<in> set pre. \<not> P p \<Longrightarrow> List.find P (pre @ x # post) = Some x"
  by (induction pre) auto

lemma matchNodes_SomeD:
  assumes "matchNodes rels cj l r iteration = Some m"
  shows "\<exists>rel \<in> set rels. spec_rule_passes cj rel l r iteration
            \<and> match_direction m = rel_direction rel \<and> match_label m = rel_label rel"
proof -
  from assms obtain rel where
    f: "List.find (\<lambda>rel. spec_rule_passes cj rel l r iteration) rels = Some rel"
    and m: "m = \<lparr>match_direction = rel_direction rel, match_label = rel_label rel\<rparr>"
    by (auto simp: matchNodes_find split: option.splits)
  from f have "rel \<in> set rels" "spec_rule_passes cj rel l r iteration"
    by (auto simp: find_Some_iff)
  with m show ?thesis by auto
qed

lemma matchLoop_skip_rejected:
  "rejects cj rel l r iteration \<Longrightarrow>
   matchLoop cj (pre @ rel # post) l r iteration = matchLoop cj (pre @ post) l r iteration"
  by (induction pre) auto

lemma matchLoop_SomeD:
  "matchLoop cj rels l r iteration = Some rel \<Longrightarrow> rel \<in> set rels \<and> \<not> rejects cj rel l r iteration"
  by (induction rels) (auto split: if_splits)

lemma distance_rejects:
  "rel_maxDistance rel \<noteq> - 1 \<Longrightarrow> fst (index r) - snd (index l) - 1 > rel_maxDistance rel \<Longrightarrow>
   rejects cj rel l r iteration"
  by (simp add: rejects_def)

lemma rejects_tokens:
  "rejects cj rel l r iteration \<longleftrightarrow>
     rejects cj (rel\<lparr>rel_leftTokens := [], rel_rightTokens := []\<rparr>) l r iteration
     \<or> (rel_leftTokens rel \<noteq> [] \<and> lemmaOf cj l \<notin> set (rel_leftTokens rel))
     \<or> (rel_rightTokens rel \<noteq> [] \<and> lemmaOf cj r \<notin> set (rel_rightTokens rel))"
  unfolding rejects_iff spec_rule_passes_def by auto

lemma root_protection:
  "rel_direction rel = ''<-'' \<and> label r = Some ''ROOT''
   \<or> rel_direction rel = ''->'' \<and> label l = Some ''ROOT'' \<Longrightarrow> rejects cj rel l r iteration"
  by (elim disjE conjE) (simp_all add: rejects_def)

lemma matchNodes_root_protection:
  assumes "matchNodes rels cj l r iteration = Some m"
  shows "\<not> (match_direction m = ''<-'' \<and> label r = Some ''ROOT'')
         \<and> \<not> (match_direction m = ''->'' \<and> label l = Some ''ROOT'')"
proof -
  from matchNodes_SomeD [OF assms] obtain rel where
    p: "spec_rule_passes cj rel l r iteration" and d: "match_direction m = rel_direction rel"
    by blast
  from p have "\<not> (rel_direction rel = ''<-'' \<and> label r = Some ''ROOT'')"
    "\<not> (rel_direction rel = ''->'' \<and> label l = Some ''ROOT'')"
    by (simp_all add: spec_rule_passes_def)
  then show ?thesis by (simp add: d)
qed

subsection \<open>The root identifier\<close>

text \<open>
  The loop either skips every node and returns the sequence as it is, or labels the first
  node it does not skip and returns.
\<close>

lemma skipLine_no_next:
  "found vbs (Some (type node)) \<Longrightarrow> skipLine cj node None nx2 nx3 = None"
  by (simp add: skipLine_def)

lemma skipLine_66D:
  "skipLine cj node nx1 nx2 nx3 = Some 66 \<Longrightarrow> \<exists>n1. nx1 = Some n1 \<and> lemmaOf cj n1 \<in> set oe"
  by (auto simp: skipLine_def found_Some_iff split: if_splits)

lemma skipLine_66_iff:
  assumes "type node \<in> set vbs" "found pa (first (tags node))"
  shows "skipLine cj node nx1 nx2 nx3 = Some 66 \<longleftrightarrow>
           (\<exists>n1 n2. nx1 = Some n1 \<and> nx2 = Some n2
              \<and> type n1 \<notin> set vbs \<and> first (tags n1) \<noteq> Some ''RB'' \<and> fst (index node) \<noteq> 0
              \<and> lemmaOf cj n1 \<in> set oe \<and> type n2 \<in> set vbs)"
  using assms by (cases nx1; cases nx2) (auto simp: skipLine_def found_Some_iff)

lemma identifyLoop_char:
  "(identifyLoop cj i nodes = nodes \<and> (\<forall>j. i \<le> j \<and> j < length nodes \<longrightarrow> skipped cj nodes j))
   \<or> (\<exists>k. i \<le> k \<and> k < length nodes \<and> \<not> skipped cj nodes k
           \<and> (\<forall>j. i \<le> j \<and> j < k \<longrightarrow> skipped cj nodes j)
           \<and> identifyLoop cj i nodes = nodes[k := setLabel ''ROOT'' (nodes ! k)])"
proof (induction cj i nodes rule: identifyLoop.induct)
  case (1 cj i nodes)
  show ?case
  proof (cases "i < length nodes")
    case False
    have "identifyLoop cj i nodes = nodes"
      using False by (subst identifyLoop.simps) simp
    moreover have "\<forall>j. i \<le> j \<and> j < length nodes \<longrightarrow> skipped cj nodes j"
      using False by auto
    ultimately show ?thesis by blast
  next
    case True
    show ?thesis
    proof (cases "skipped cj nodes i")
      case False
      have "identifyLoop cj i nodes = nodes[i := setLabel ''ROOT'' (nodes ! i)]"
        using True False by (subst identifyLoop.simps) (simp add: skipped_def)
      moreover have "\<forall>j. i \<le> j \<and> j < i \<longrightarrow> skipped cj nodes j" by auto
      ultimately show ?thesis using True False by blast
    next
      case sk: True
      have eq: "identifyLoop cj i nodes = identifyLoop cj (i + 1) nodes"
        using True sk by (subst identifyLoop.simps) (simp add: skipped_def)
      have ext: "\<forall>j. i \<le> j \<and> j < m \<longrightarrow> skipped cj nodes j"
        if "\<forall>j. i + 1 \<le> j \<and> j < m \<longrightarrow> skipped cj nodes j" for m
      proof (intro allI impI)
        fix j assume j: "i \<le> j \<and> j < m"
        show "skipped cj nodes j"
        proof (cases "j = i")
          case True
          then show ?thesis using sk by simp
        next
          case False
          then have "i + 1 \<le> j \<and> j < m" using j by arith
          then show ?thesis using that by blast
        qed
      qed
      note IH = "1.IH" [OF True sk [unfolded skipped_def]]
      from IH show ?thesis
      proof (elim disjE exE conjE)
        assume a: "identifyLoop cj (i + 1) nodes = nodes"
          "\<forall>j. i + 1 \<le> j \<and> j < length nodes \<longrightarrow> skipped cj nodes j"
        show ?thesis using a(1) ext [OF a(2)] eq by simp
      next
        fix k
        assume b: "i + 1 \<le> k" "k < length nodes" "\<not> skipped cj nodes k"
          "\<forall>j. i + 1 \<le> j \<and> j < k \<longrightarrow> skipped cj nodes j"
          "identifyLoop cj (i + 1) nodes = nodes[k := setLabel ''ROOT'' (nodes ! k)]"
        have "i \<le> k" using b(1) by simp
        moreover have "identifyLoop cj i nodes = nodes[k := setLabel ''ROOT'' (nodes ! k)]"
          using eq b(5) by simp
        ultimately show ?thesis using b(2,3) ext [OF b(4)] by blast
      qed
    qed
  qed
qed

lemma identifyRoot_cases:
  obtains (none) "identifyRoot cj nodes = nodes" "\<forall>j < length nodes. skipped cj nodes j"
  | (mark) k where "k < length nodes" "\<not> skipped cj nodes k" "\<forall>j < k. skipped cj nodes j"
      "identifyRoot cj nodes = nodes[k := setLabel ''ROOT'' (nodes ! k)]"
  using identifyLoop_char [of cj 0 nodes] unfolding identifyRoot_def by auto

lemma identifyRoot_shape:
  "identifyRoot cj nodes = nodes
   \<or> (\<exists>k < length nodes. identifyRoot cj nodes = nodes[k := setLabel ''ROOT'' (nodes ! k)])"
  by (cases rule: identifyRoot_cases [of cj nodes]) auto

lemma identifyRoot_first:
  "(identifyRoot cj nodes = nodes \<and> (\<forall>j < length nodes. skipped cj nodes j))
   \<or> (\<exists>k < length nodes. \<not> skipped cj nodes k \<and> (\<forall>j < k. skipped cj nodes j)
         \<and> identifyRoot cj nodes = nodes[k := setLabel ''ROOT'' (nodes ! k)])"
proof (cases rule: identifyRoot_cases [of cj nodes])
  case none
  then show ?thesis by blast
next
  case (mark k)
  then show ?thesis by blast
qed

lemma map_unlabel_update:
  "k < length nodes \<Longrightarrow> map unlabel (nodes[k := setLabel lab (nodes ! k)]) = map unlabel nodes"
  by (simp add: map_update list_update_same_conv)

lemma identifyRoot_unlabel: "map unlabel (identifyRoot cj nodes) = map unlabel nodes"
  using identifyRoot_shape [of cj nodes] by (auto simp: map_unlabel_update)

lemma identifyRoot_length [simp]: "length (identifyRoot cj nodes) = length nodes"
  using identifyRoot_shape [of cj nodes] by auto

lemma identifyRoot_Nil [simp]: "identifyRoot cj [] = []"
  by (simp add: identifyRoot_def identifyLoop.simps)

lemma identifyRoot_all:
  assumes "\<And>n. Q (setLabel ''ROOT'' n) = Q n" "\<forall>n \<in> set nodes. Q n"
  shows "\<forall>n \<in> set (identifyRoot cj nodes). Q n"
proof (cases rule: identifyRoot_cases [of cj nodes])
  case none
  then show ?thesis using assms(2) by simp
next
  case (mark k)
  have "Q (setLabel ''ROOT'' (nodes ! k))" using assms mark(1) by simp
  moreover have "set (nodes[k := setLabel ''ROOT'' (nodes ! k)])
                   \<subseteq> insert (setLabel ''ROOT'' (nodes ! k)) (set nodes)"
    by (rule set_update_subset_insert)
  ultimately show ?thesis using assms(2) unfolding mark(4) by blast
qed

lemma filter_update_le:
  "length (filter P (xs[k := y])) \<le> length (filter P xs) + 1"
proof (induction xs arbitrary: k)
  case Nil
  then show ?case by simp
next
  case (Cons x xs)
  show ?case
  proof (cases k)
    case 0
    then show ?thesis by simp
  next
    case (Suc j)
    then show ?thesis using Cons.IH [of j] by simp
  qed
qed

lemma identifyRoot_roots_le:
  "length (filter isRoot (identifyRoot cj nodes)) \<le> length (filter isRoot nodes) + 1"
proof (cases rule: identifyRoot_cases [of cj nodes])
  case none
  then show ?thesis by simp
next
  case (mark k)
  show ?thesis unfolding mark(4) by (rule filter_update_le)
qed

subsection \<open>One pass is a fold from the right\<close>

text \<open>
  At position \<open>l\<close> the loop reads the node at \<open>l\<close>, which no earlier step has touched, and the
  node at \<open>l + 1\<close>, which is the head of the part already visited; the nodes before \<open>l\<close> stay
  as they are. So the pass over a sequence is \<open>foldr absorb\<close> over all nodes but the last,
  started on the last node, and every position the loop reads is in range.
\<close>

lemma spliceStep_append:
  "spliceStep rels cj iteration (length ys) (ys @ x # r # rs)
     = ys @ absorb rels cj iteration x (r # rs)"
  by (simp add: spliceStep_def absorb_def splice1_def nth_append list_update_append
           split: option.splits)

lemma spliceStep_length:
  "l + 1 < length nodes \<Longrightarrow> l < length (spliceStep rels cj iteration l nodes)"
  by (auto simp: spliceStep_def splice1_def Let_def split: option.splits)

lemma absorb_Nil [simp]: "absorb rels cj iteration x [] = [x]"
  by (simp add: absorb_def)

lemma absorb_not_Nil: "absorb rels cj iteration x acc \<noteq> []"
  by (simp add: absorb_def split: list.splits option.splits)

lemma scanFrom_foldr:
  "zs \<noteq> [] \<Longrightarrow>
   scanFrom rels cj iteration (length ys) (ys @ zs) = foldr (absorb rels cj iteration) ys zs"
proof (induction ys arbitrary: zs rule: rev_induct)
  case Nil
  then show ?case by simp
next
  case (snoc x ys)
  from snoc.prems obtain r rs where zs: "zs = r # rs" by (cases zs) auto
  have "scanFrom rels cj iteration (length (ys @ [x])) ((ys @ [x]) @ zs)
        = scanFrom rels cj iteration (length ys) (ys @ absorb rels cj iteration x zs)"
    using spliceStep_append [of rels cj iteration ys x r rs] by (simp add: zs)
  also have "\<dots> = foldr (absorb rels cj iteration) ys (absorb rels cj iteration x zs)"
    by (rule snoc.IH) (rule absorb_not_Nil)
  finally show ?case by simp
qed

lemma pass_foldr:
  "nodes \<noteq> [] \<Longrightarrow>
   scanFrom rels cj iteration (length nodes - 1) nodes
     = foldr (absorb rels cj iteration) (butlast nodes) [last nodes]"
  using scanFrom_foldr [of "[last nodes]" rels cj iteration "butlast nodes"]
  by simp

lemma absorb_cases:
  obtains (keep) "absorb rels cj iteration x (r # rs) = x # r # rs"
  | (right) rel where "rel \<in> set rels" "spec_rule_passes cj rel x r iteration"
      "rel_direction rel = ''<-''"
      "absorb rels cj iteration x (r # rs) = pushRight (setLabel (rel_label rel) r) x # rs"
  | (left) rel where "rel \<in> set rels" "spec_rule_passes cj rel x r iteration"
      "rel_direction rel = ''->''"
      "absorb rels cj iteration x (r # rs) = pushLeft (setLabel (rel_label rel) x) r # rs"
proof (cases "matchNodes rels cj x r iteration")
  case None
  then show ?thesis using keep by (simp add: absorb_def)
next
  case (Some m)
  from matchNodes_SomeD [OF Some] obtain rel where rel: "rel \<in> set rels"
    "spec_rule_passes cj rel x r iteration" "match_direction m = rel_direction rel"
    "match_label m = rel_label rel" by blast
  show ?thesis
  proof (cases "rel_direction rel = ''<-''")
    case True
    then show ?thesis using right [of rel] rel Some by (simp add: absorb_def)
  next
    case nr: False
    show ?thesis
    proof (cases "rel_direction rel = ''->''")
      case True
      then show ?thesis using left [of rel] rel Some nr by (simp add: absorb_def)
    next
      case False
      then show ?thesis using keep rel Some nr by (simp add: absorb_def)
    qed
  qed
qed

subsection \<open>The loop of the reduction engine\<close>

lemma buildLoop_count:
  "iteration \<le> cap \<Longrightarrow>
   iteration \<le> fst (buildLoop rels cj iteration cap nodes)
   \<and> fst (buildLoop rels cj iteration cap nodes) \<le> cap"
proof (induction rels cj iteration cap nodes rule: buildLoop.induct)
  case (1 rels cj iteration recursionLimit nodes)
  show ?case
  proof (cases "iteration < recursionLimit \<and> length nodes > 1")
    case True
    then have "iteration + 1 \<le> recursionLimit" by simp
    from "1.IH" [OF True this] show ?thesis using True
      by (subst (1 2) buildLoop.simps) simp
  next
    case False
    then show ?thesis using "1.prems" by (subst (1 2) buildLoop.simps) auto
  qed
qed

lemma buildLoop_no_pass:
  "recursionLimit \<le> iteration \<or> length nodes \<le> 1 \<Longrightarrow>
   buildLoop rels cj iteration recursionLimit nodes = (iteration, nodes)"
  by (subst buildLoop.simps) auto

lemma buildLoop_invariant:
  assumes step: "\<And>iteration ns. ns \<noteq> [] \<Longrightarrow> P ns \<Longrightarrow>
                   P (scanFrom rels cj iteration (length ns - 1) ns)"
    and init: "P nodes"
  shows "P (snd (buildLoop rels cj iteration recursionLimit nodes))"
  using init step
proof (induction rels cj iteration recursionLimit nodes rule: buildLoop.induct)
  case (1 rels cj iteration recursionLimit nodes)
  show ?case
  proof (cases "iteration < recursionLimit \<and> length nodes > 1")
    case True
    then have ne: "nodes \<noteq> []" by auto
    have "P (scanFrom rels cj iteration (length nodes - 1) nodes)"
      by (rule "1.prems"(2) [OF ne "1.prems"(1)])
    from "1.IH" [OF True this "1.prems"(2)] show ?thesis using True
      by (subst buildLoop.simps) simp
  next
    case False
    then show ?thesis using "1.prems"(1) by (subst buildLoop.simps) auto
  qed
qed

lemma foldr_absorb_all:
  assumes step: "\<And>x acc. Q x \<Longrightarrow> \<forall>n \<in> set acc. Q n \<Longrightarrow>
                   \<forall>n \<in> set (absorb rels cj iteration x acc). Q n"
    and "\<forall>n \<in> set ys. Q n" "\<forall>n \<in> set zs. Q n"
  shows "\<forall>n \<in> set (foldr (absorb rels cj iteration) ys zs). Q n"
  using assms(2,3) by (induction ys) (auto intro: step [rule_format])

lemma relating_all:
  assumes step: "\<And>iteration x acc. Q x \<Longrightarrow> \<forall>n \<in> set acc. Q n \<Longrightarrow>
                   \<forall>n \<in> set (absorb rels cj iteration x acc). Q n"
    and init: "\<forall>n \<in> set nodes. Q n"
  shows "\<forall>n \<in> set (buildRelationships rels cj nodes recursionLimit). Q n"
  unfolding buildRelationships_def
proof (rule buildLoop_invariant [where P = "\<lambda>ns. \<forall>n \<in> set ns. Q n"])
  fix iteration and ns :: "node list"
  assume ne: "ns \<noteq> []" and all: "\<forall>n \<in> set ns. Q n"
  have "\<forall>n \<in> set (butlast ns). Q n" using all by (auto dest: in_set_butlastD)
  moreover have "\<forall>n \<in> set [last ns]. Q n" using all ne by simp
  ultimately show "\<forall>n \<in> set (scanFrom rels cj iteration (length ns - 1) ns). Q n"
    unfolding pass_foldr [OF ne] by (intro foldr_absorb_all step) auto
qed (rule init)

subsection \<open>Invariants of the reduction engine\<close>

lemma absorb_noRootBelow:
  assumes norule: "\<forall>rel \<in> set rels. rel_label rel \<noteq> ''ROOT''"
    and x: "noRootBelow x" and acc: "\<forall>n \<in> set acc. noRootBelow n"
  shows "\<forall>n \<in> set (absorb rels cj iteration x acc). noRootBelow n"
proof (cases acc)
  case Nil
  then show ?thesis using x by simp
next
  case (Cons r rs)
  have r: "noRootBelow r" and rs: "\<forall>n \<in> set rs. noRootBelow n" using acc Cons by auto
  show ?thesis
  proof (cases rule: absorb_cases [of rels cj iteration x r rs])
    case keep
    then show ?thesis using x r rs Cons by simp
  next
    case (right rel)
    have "noRootBelow (setLabel (rel_label rel) r)"
      using r by (subst noRootBelow_sel, subst (asm) noRootBelow_sel) simp
    then have "noRootBelow (pushRight (setLabel (rel_label rel) r) x)"
      using x norule right(1) by (subst noRootBelow_sel, subst (asm) (2) noRootBelow_sel) auto
    then show ?thesis using rs right(4) Cons by simp
  next
    case (left rel)
    have "noRootBelow (setLabel (rel_label rel) x)"
      using x by (subst noRootBelow_sel, subst (asm) noRootBelow_sel) simp
    then have "noRootBelow (pushLeft (setLabel (rel_label rel) x) r)"
      using r norule left(1) by (subst noRootBelow_sel, subst (asm) (2) noRootBelow_sel) auto
    then show ?thesis using rs left(4) Cons by simp
  qed
qed

lemma absorb_singleSubject:
  assumes x: "singleSubject x" and acc: "\<forall>n \<in> set acc. singleSubject n"
  shows "\<forall>n \<in> set (absorb rels cj iteration x acc). singleSubject n"
proof (cases acc)
  case Nil
  then show ?thesis using x by simp
next
  case (Cons r rs)
  have r: "singleSubject r" and rs: "\<forall>n \<in> set rs. singleSubject n" using acc Cons by auto
  show ?thesis
  proof (cases rule: absorb_cases [of rels cj iteration x r rs])
    case keep
    then show ?thesis using x r rs Cons by simp
  next
    case (right rel)
    have "singleSubject (setLabel (rel_label rel) r)"
      using r by (subst singleSubject_sel, subst (asm) singleSubject_sel) simp
    then have "singleSubject (pushRight (setLabel (rel_label rel) r) x)"
      using x by (subst singleSubject_sel, subst (asm) (2) singleSubject_sel) auto
    then show ?thesis using rs right(4) Cons by simp
  next
    case (left rel)
    have x': "singleSubject (setLabel (rel_label rel) x)"
      using x by (subst singleSubject_sel, subst (asm) singleSubject_sel) simp
    have n1: "rel_label rel = ''NSUBJ'' \<Longrightarrow> filter (\<lambda>c. label c = Some ''NSUBJ'') (left r) = []"
      using left(2,3) by (auto simp: spec_rule_passes_def filter_empty_conv)
    have n2: "rel_label rel = ''NSUBJPASS'' \<Longrightarrow>
                filter (\<lambda>c. label c = Some ''NSUBJPASS'') (left r) = []"
      using left(2,3) by (auto simp: spec_rule_passes_def filter_empty_conv)
    have "singleSubject (pushLeft (setLabel (rel_label rel) x) r)"
      using r x' n1 n2 by (subst singleSubject_sel, subst (asm) singleSubject_sel) auto
    then show ?thesis using rs left(4) Cons by simp
  qed
qed

lemma absorb_forestRoots:
  assumes norule: "\<forall>rel \<in> set rels. rel_label rel \<noteq> ''ROOT''"
  shows "forestRoots (absorb rels cj iteration x acc) = rootCount x + forestRoots acc"
proof (cases acc)
  case Nil
  then show ?thesis by simp
next
  case (Cons r rs)
  show ?thesis
  proof (cases rule: absorb_cases [of rels cj iteration x r rs])
    case keep
    then show ?thesis using Cons by simp
  next
    case (right rel)
    from right(2,3) have "\<not> isRoot r" by (simp add: spec_rule_passes_def isRoot_def)
    moreover have "rel_label rel \<noteq> ''ROOT''" using norule right(1) by blast
    ultimately show ?thesis using right(4) Cons
      by (simp add: rootCount_pushRight rootCount_setLabel)
  next
    case (left rel)
    from left(2,3) have "\<not> isRoot x" by (simp add: spec_rule_passes_def isRoot_def)
    moreover have "rel_label rel \<noteq> ''ROOT''" using norule left(1) by blast
    ultimately show ?thesis using left(4) Cons
      by (simp add: rootCount_pushLeft rootCount_setLabel)
  qed
qed

lemma absorb_topRoots:
  "topRoots (absorb rels cj iteration x acc) = topRoots (x # acc)"
proof (cases acc)
  case Nil
  then show ?thesis by simp
next
  case (Cons r rs)
  show ?thesis
  proof (cases rule: absorb_cases [of rels cj iteration x r rs])
    case keep
    then show ?thesis using Cons by simp
  next
    case (right rel)
    from right(2,3) have "\<not> isRoot r" by (simp add: spec_rule_passes_def isRoot_def)
    then show ?thesis using right(4) Cons by (simp add: isRoot_def shallow_def)
  next
    case (left rel)
    from left(2,3) have "\<not> isRoot x" by (simp add: spec_rule_passes_def isRoot_def)
    then show ?thesis using left(4) Cons by (simp add: isRoot_def shallow_def)
  qed
qed

lemma foldr_absorb_forestRoots:
  "\<forall>rel \<in> set rels. rel_label rel \<noteq> ''ROOT'' \<Longrightarrow>
   forestRoots (foldr (absorb rels cj iteration) ys zs) = forestRoots ys + forestRoots zs"
  by (induction ys) (simp_all add: absorb_forestRoots)

lemma foldr_absorb_topRoots:
  "topRoots (foldr (absorb rels cj iteration) ys zs) = topRoots ys @ topRoots zs"
  by (induction ys) (simp_all add: absorb_topRoots)

lemma pass_forestRoots:
  assumes "\<forall>rel \<in> set rels. rel_label rel \<noteq> ''ROOT''" "ns \<noteq> []"
  shows "forestRoots (scanFrom rels cj iteration (length ns - 1) ns) = forestRoots ns"
proof -
  have "forestRoots ns = forestRoots (butlast ns @ [last ns])" using assms(2) by simp
  then show ?thesis
    unfolding pass_foldr [OF assms(2)] foldr_absorb_forestRoots [OF assms(1)] by simp
qed

lemma pass_topRoots:
  assumes "ns \<noteq> []"
  shows "topRoots (scanFrom rels cj iteration (length ns - 1) ns) = topRoots ns"
proof -
  have "topRoots ns = topRoots (butlast ns @ [last ns])" using assms by simp
  then show ?thesis
    unfolding pass_foldr [OF assms] foldr_absorb_topRoots by simp
qed

lemma buildRelationships_forestRoots:
  assumes "\<forall>rel \<in> set rels. rel_label rel \<noteq> ''ROOT''"
  shows "forestRoots (buildRelationships rels cj nodes recursionLimit) = forestRoots nodes"
  unfolding buildRelationships_def
proof (rule buildLoop_invariant [where P = "\<lambda>ns. forestRoots ns = forestRoots nodes"])
  fix iteration and ns :: "node list"
  assume "ns \<noteq> []" "forestRoots ns = forestRoots nodes"
  then show "forestRoots (scanFrom rels cj iteration (length ns - 1) ns) = forestRoots nodes"
    using pass_forestRoots [OF assms, of ns cj iteration] by simp
qed simp

lemma buildRelationships_topRoots:
  "topRoots (buildRelationships rels cj nodes recursionLimit) = topRoots nodes"
  unfolding buildRelationships_def
proof (rule buildLoop_invariant [where P = "\<lambda>ns. topRoots ns = topRoots nodes"])
  fix iteration and ns :: "node list"
  assume "ns \<noteq> []" "topRoots ns = topRoots nodes"
  then show "topRoots (scanFrom rels cj iteration (length ns - 1) ns) = topRoots nodes"
    using pass_topRoots [of ns rels cj iteration] by simp
qed simp

lemma relating_noRootBelow:
  assumes "\<forall>rel \<in> set rels. rel_label rel \<noteq> ''ROOT''" "\<forall>n \<in> set nodes. noRootBelow n"
  shows "\<forall>n \<in> set (relating rels cj nodes recursionLimit). noRootBelow n"
  unfolding relating_def
proof (rule relating_all)
  show "\<forall>n \<in> set (identifyRoot cj nodes). noRootBelow n"
    by (rule identifyRoot_all) (simp_all add: assms(2))
next
  fix iteration x acc
  assume "noRootBelow x" "\<forall>n \<in> set acc. noRootBelow n"
  then show "\<forall>n \<in> set (absorb rels cj iteration x acc). noRootBelow n"
    by (rule absorb_noRootBelow [OF assms(1)])
qed

lemma relating_singleSubject:
  assumes "\<forall>n \<in> set nodes. singleSubject n"
  shows "\<forall>n \<in> set (relating rels cj nodes recursionLimit). singleSubject n"
  unfolding relating_def
proof (rule relating_all)
  show "\<forall>n \<in> set (identifyRoot cj nodes). singleSubject n"
    by (rule identifyRoot_all) (simp_all add: assms)
next
  fix iteration x acc
  assume "singleSubject x" "\<forall>n \<in> set acc. singleSubject n"
  then show "\<forall>n \<in> set (absorb rels cj iteration x acc). singleSubject n"
    by (rule absorb_singleSubject)
qed

subsection \<open>Worked examples\<close>

lemmas ex_eval = ex_tok_def ex_rule_def ex_np_def ex_vbz_def sampleConj_def skipLine_def found_def
  vbs_def pa_def oe_def first_def lemmaOf_def deContract_def contractions_def replacements_def
  nodeAt_def identifyRoot_def identifyLoop.simps setLabel_def

lemma ex_relating:
  "relating [ex_subj, ex_obj] sampleConj ex_sentence 3
     = [ex_tok ''NP'' ''NNS'' ''dogs'' 0,
        Node ''VP'' [''VBD''] [''chased''] (2, 2) (Some ''ROOT'')
          [Node ''NP'' [''NNS''] [''cats''] (1, 1) (Some ''NSUBJ'') [] []]
          [Node ''NP'' [''NNS''] [''mice''] (3, 3) (Some ''DOBJ'') [] []]]"
  by code_simp

lemma ex_identifyRoot:
  "identifyRoot sampleConj ex_sentence
     = [ex_tok ''NP'' ''NNS'' ''dogs'' 0, ex_tok ''NP'' ''NNS'' ''cats'' 1,
        setLabel ''ROOT'' (ex_tok ''VP'' ''VBD'' ''chased'' 2), ex_tok ''NP'' ''NNS'' ''mice'' 3]"
  by code_simp

section \<open>The claims\<close>

subsection \<open>C1: the root is never absorbed\<close>

text \<open>
  C1 (amended). The matcher rejects every \<open><-\<close> rule when the right node carries the label
  \<open>ROOT\<close> and every \<open>->\<close> rule when the left node carries it, so no match ever makes a node
  labelled \<open>ROOT\<close> a child: for every rule table and recursion limit the top-level nodes
  labelled \<open>ROOT\<close> after the root identifier are the top-level nodes labelled \<open>ROOT\<close> in the
  result, in the same order. Provided that no rule of the table carries the label \<open>ROOT\<close>
  and that no child list of the input, at any depth, holds a node labelled \<open>ROOT\<close>, no
  child list of the result does, at any depth.
\<close>

theorem root_never_absorbed:
  "(rel_direction rel = ''<-'' \<and> label r = Some ''ROOT''
      \<or> rel_direction rel = ''->'' \<and> label l = Some ''ROOT'' \<longrightarrow> rejects cj rel l r iteration)
   \<and> (matchNodes rels cj l r iteration = Some m \<longrightarrow>
        \<not> (match_direction m = ''<-'' \<and> label r = Some ''ROOT'')
        \<and> \<not> (match_direction m = ''->'' \<and> label l = Some ''ROOT''))
   \<and> topRoots (relating rels cj nodes recursionLimit) = topRoots (identifyRoot cj nodes)
   \<and> ((\<forall>d \<in> set rels. rel_label d \<noteq> ''ROOT'') \<and> (\<forall>n \<in> set nodes. noRootBelow n)
      \<longrightarrow> (\<forall>n \<in> set (relating rels cj nodes recursionLimit). noRootBelow n))"
  using root_protection [of rel r l cj iteration]
    matchNodes_root_protection [of rels cj l r iteration m]
    buildRelationships_topRoots [of rels cj "identifyRoot cj nodes" recursionLimit]
    relating_noRootBelow [of rels nodes cj recursionLimit]
  unfolding relating_def by blast

text \<open>
  An instance: \<open>dogs cats chased mice\<close> with a subject rule and an object rule. The root
  \<open>chased\<close> absorbs \<open>mice\<close> and \<open>cats\<close> and stays at the top level.
\<close>

theorem root_never_absorbed_witness:
  "rel_direction ex_obj = ''<-''
   \<and> label (setLabel ''ROOT'' (ex_tok ''VP'' ''VBD'' ''chased'' 2)) = Some ''ROOT''
   \<and> rejects sampleConj ex_obj (ex_tok ''NP'' ''NNS'' ''cats'' 1)
        (setLabel ''ROOT'' (ex_tok ''VP'' ''VBD'' ''chased'' 2)) 0
   \<and> matchNodes [ex_subj, ex_obj] sampleConj (ex_tok ''NP'' ''NNS'' ''cats'' 1)
        (setLabel ''ROOT'' (ex_tok ''VP'' ''VBD'' ''chased'' 2)) 0
       = Some \<lparr>match_direction = ''->'', match_label = ''NSUBJ''\<rparr>
   \<and> label (ex_tok ''NP'' ''NNS'' ''cats'' 1) \<noteq> Some ''ROOT''
   \<and> list_all (\<lambda>d. rel_label d \<noteq> ''ROOT'') [ex_subj, ex_obj]
   \<and> list_all noRootBelow ex_sentence
   \<and> list_all noRootBelow (relating [ex_subj, ex_obj] sampleConj ex_sentence 3)
   \<and> topRoots (relating [ex_subj, ex_obj] sampleConj ex_sentence 3)
       = [(''VP'', [''VBD''], [''chased''], (2, 2), Some ''ROOT'')]"
  using root_never_absorbed [of ex_obj "setLabel ''ROOT'' (ex_tok ''VP'' ''VBD'' ''chased'' 2)"
      "ex_tok ''NP'' ''NNS'' ''cats'' 1" sampleConj 0 "[ex_subj, ex_obj]"
      "\<lparr>match_direction = ''->'', match_label = ''NSUBJ''\<rparr>" ex_sentence 3]
  by (simp add: ex_identifyRoot list_all_iff)
     (simp add: ex_subj_def ex_obj_def ex_sentence_def ex_tok_def ex_rule_def matchNodes_def
        rejects_def findBy_label_def setLabel_def isRoot_def shallow_def)

text \<open>
  The claim as stated, for every rule table and every input, fails. With a rule that
  carries the label \<open>ROOT\<close> the absorbed node \<open>home\<close> is labelled \<open>ROOT\<close> and sits in the right
  child list of \<open>ran\<close>. And a node labelled \<open>ROOT\<close> that is in a child list of the input is
  still there in the result.
\<close>

theorem root_never_absorbed_counterexample:
  "relating [ex_rule [] [] ''<-'' ''ROOT''] sampleConj
       [ex_tok ''VP'' ''VBD'' ''ran'' 0, ex_tok ''NP'' ''NN'' ''home'' 1] 1
     = [Node ''VP'' [''VBD''] [''ran''] (0, 0) (Some ''ROOT'') []
          [Node ''NP'' [''NN''] [''home''] (1, 1) (Some ''ROOT'') [] []]]
   \<and> relating [ex_subj, ex_obj] sampleConj
       [Node ''NP'' [''NN''] [''cat''] (0, 0) None
          [Node ''DT'' [''DT''] [''the''] (0, 0) (Some ''ROOT'') [] []] []] 1
     = [Node ''NP'' [''NN''] [''cat''] (0, 0) None
          [Node ''DT'' [''DT''] [''the''] (0, 0) (Some ''ROOT'') [] []] []]
   \<and> \<not> list_all noRootBelow (relating [ex_rule [] [] ''<-'' ''ROOT''] sampleConj
            [ex_tok ''VP'' ''VBD'' ''ran'' 0, ex_tok ''NP'' ''NN'' ''home'' 1] 1)"
  by code_simp

subsection \<open>C2: the first matching rule wins\<close>

text \<open>
  C2. For every left node, right node and iteration number, the matcher scans the rule
  table in its stored order and returns the direction and label of the first rule whose
  conditions (type sets, delay, distance, root protection, duplicate-subject protection,
  token lemmas) all pass, or no match when no rule passes. The rules after the first
  satisfied one have no influence on the result.
\<close>

theorem matchNodes_first_match:
  "matchNodes rels cj l r iteration =
     (case List.find (\<lambda>rel. spec_rule_passes cj rel l r iteration) rels of
        None \<Rightarrow> None
      | Some rel \<Rightarrow> Some \<lparr>match_direction = rel_direction rel, match_label = rel_label rel\<rparr>)
   \<and> (spec_rule_passes cj rel l r iteration
        \<and> (\<forall>p \<in> set pre. \<not> spec_rule_passes cj p l r iteration)
      \<longrightarrow> matchNodes (pre @ rel # post) cj l r iteration
            = Some \<lparr>match_direction = rel_direction rel, match_label = rel_label rel\<rparr>)
   \<and> ((\<forall>p \<in> set rels. \<not> spec_rule_passes cj p l r iteration)
      \<longrightarrow> matchNodes rels cj l r iteration = None)"
proof (intro conjI impI)
  show "matchNodes rels cj l r iteration =
     (case List.find (\<lambda>rel. spec_rule_passes cj rel l r iteration) rels of
        None \<Rightarrow> None
      | Some rel \<Rightarrow> Some \<lparr>match_direction = rel_direction rel, match_label = rel_label rel\<rparr>)"
    by (rule matchNodes_find)
next
  assume "spec_rule_passes cj rel l r iteration
        \<and> (\<forall>p \<in> set pre. \<not> spec_rule_passes cj p l r iteration)"
  then have "List.find (\<lambda>rel. spec_rule_passes cj rel l r iteration) (pre @ rel # post) = Some rel"
    by (intro find_first) auto
  then show "matchNodes (pre @ rel # post) cj l r iteration
            = Some \<lparr>match_direction = rel_direction rel, match_label = rel_label rel\<rparr>"
    by (simp add: matchNodes_find)
next
  assume "\<forall>p \<in> set rels. \<not> spec_rule_passes cj p l r iteration"
  then have "List.find (\<lambda>rel. spec_rule_passes cj rel l r iteration) rels = None"
    by (simp add: find_None_iff)
  then show "matchNodes rels cj l r iteration = None"
    by (simp add: matchNodes_find)
qed

text \<open>An instance: a table of three rules of which the second and the third pass.\<close>

theorem matchNodes_first_match_witness:
  "spec_rule_passes sampleConj (ex_rule [''NP''] [] ''->'' ''NSUBJ'') ex_np ex_vbz 0
   \<and> \<not> spec_rule_passes sampleConj (ex_rule [''VP''] [] ''<-'' ''AUX'') ex_np ex_vbz 0
   \<and> spec_rule_passes sampleConj (ex_rule [] [''VBZ''] ''<-'' ''DEP'') ex_np ex_vbz 0
   \<and> matchNodes ([ex_rule [''VP''] [] ''<-'' ''AUX''] @ ex_rule [''NP''] [] ''->'' ''NSUBJ''
                   # [ex_rule [] [''VBZ''] ''<-'' ''DEP'']) sampleConj ex_np ex_vbz 0
       = Some \<lparr>match_direction = ''->'', match_label = ''NSUBJ''\<rparr>
   \<and> matchNodes [ex_rule [''VP''] [] ''<-'' ''AUX''] sampleConj ex_np ex_vbz 0 = None"
  using matchNodes_first_match [of "[ex_rule [''VP''] [] ''<-'' ''AUX'']" sampleConj ex_np ex_vbz 0
      "ex_rule [''NP''] [] ''->'' ''NSUBJ''" "[ex_rule [''VP''] [] ''<-'' ''AUX'']"
      "[ex_rule [] [''VBZ''] ''<-'' ''DEP'']"]
  by (simp add: spec_rule_passes_def ex_rule_def ex_np_def ex_vbz_def)

subsection \<open>C3: lookahead pattern 5\<close>

text \<open>
  C3 (amended). For a candidate verb whose first tag is a possible-auxiliary tag, the
  \<open>continue\<close> of source line 66 (lookahead pattern 5) is taken exactly when a next node
  exists that is not a candidate verb and whose first tag is not \<open>RB\<close>, the candidate does
  not start at original index 0, a node two positions ahead exists and is a candidate
  verb, and the first token of the NEXT node, expanded and conjugated to present tense,
  is one of \<open>be\<close>, \<open>have\<close>, \<open>do\<close>, \<open>will\<close>, \<open>shall\<close>, \<open>may\<close>, \<open>can\<close>.
\<close>

theorem auxiliary_pattern5:
  "type node \<in> set vbs \<and> found pa (first (tags node)) \<longrightarrow>
     (skipLine cj node nx1 nx2 nx3 = Some 66 \<longleftrightarrow>
        (\<exists>n1 n2. nx1 = Some n1 \<and> nx2 = Some n2
           \<and> type n1 \<notin> set vbs \<and> first (tags n1) \<noteq> Some ''RB'' \<and> fst (index node) \<noteq> 0
           \<and> lemmaOf cj n1 \<in> set oe \<and> type n2 \<in> set vbs))"
  using skipLine_66_iff by blast

text \<open>
  An instance: \<open>want will go\<close>, with the candidate \<open>want\<close> at index 1.
\<close>

theorem auxiliary_pattern5_witness:
  "type (ex_tok ''VP'' ''VBP'' ''want'' 1) \<in> set vbs
   \<and> found pa (first (tags (ex_tok ''VP'' ''VBP'' ''want'' 1)))
   \<and> skipLine sampleConj (ex_tok ''VP'' ''VBP'' ''want'' 1) (Some (ex_tok ''MD'' ''MD'' ''will'' 2))
        (Some (ex_tok ''VB'' ''VB'' ''go'' 3)) None = Some 66"
  using auxiliary_pattern5 [of "ex_tok ''VP'' ''VBP'' ''want'' 1" sampleConj
      "Some (ex_tok ''MD'' ''MD'' ''will'' 2)" "Some (ex_tok ''VB'' ''VB'' ''go'' 3)" None]
  by (simp add: ex_tok_def vbs_def pa_def oe_def found_def first_def lemmaOf_def sampleConj_def
        deContract_def contractions_def)

text \<open>
  The claim as stated fails in both directions. In \<open>what have you eaten\<close> the candidate
  \<open>have\<close> is itself an auxiliary lemma and the node two positions ahead is a candidate verb,
  yet \<open>have\<close> is not skipped and becomes the root. In \<open>want will go\<close> the candidate \<open>want\<close> is no
  auxiliary lemma, yet it is skipped at line 66, because the next token \<open>will\<close> is one.
\<close>

theorem auxiliary_pattern5_counterexample:
  "type (ex_tok ''VP'' ''VBP'' ''have'' 1) \<in> set vbs
   \<and> found pa (first (tags (ex_tok ''VP'' ''VBP'' ''have'' 1)))
   \<and> lemmaOf sampleConj (ex_tok ''VP'' ''VBP'' ''have'' 1) \<in> set oe
   \<and> type (ex_tok ''VBN'' ''VBN'' ''eaten'' 3) \<in> set vbs
   \<and> skipLine sampleConj (ex_tok ''VP'' ''VBP'' ''have'' 1) (Some (ex_tok ''NP'' ''PRP'' ''you'' 2))
        (Some (ex_tok ''VBN'' ''VBN'' ''eaten'' 3)) None = None
   \<and> identifyRoot sampleConj
        [ex_tok ''WP'' ''WP'' ''what'' 0, ex_tok ''VP'' ''VBP'' ''have'' 1,
         ex_tok ''NP'' ''PRP'' ''you'' 2, ex_tok ''VBN'' ''VBN'' ''eaten'' 3]
       = [ex_tok ''WP'' ''WP'' ''what'' 0, setLabel ''ROOT'' (ex_tok ''VP'' ''VBP'' ''have'' 1),
          ex_tok ''NP'' ''PRP'' ''you'' 2, ex_tok ''VBN'' ''VBN'' ''eaten'' 3]
   \<and> type (ex_tok ''VP'' ''VBP'' ''want'' 1) \<in> set vbs
   \<and> found pa (first (tags (ex_tok ''VP'' ''VBP'' ''want'' 1)))
   \<and> lemmaOf sampleConj (ex_tok ''VP'' ''VBP'' ''want'' 1) \<notin> set oe
   \<and> skipLine sampleConj (ex_tok ''VP'' ''VBP'' ''want'' 1) (Some (ex_tok ''MD'' ''MD'' ''will'' 2))
        (Some (ex_tok ''VB'' ''VB'' ''go'' 3)) None = Some 66"
  by (simp add: ex_eval)

subsection \<open>C4: at most one root\<close>

text \<open>
  C4 (amended). The root identifier labels at most one node: it returns the sequence
  unchanged when every node is skipped, and otherwise sets the label of the first node
  that is not skipped and of no other. So the number of nodes labelled \<open>ROOT\<close> grows by at
  most one, and it is 0 or 1 for every input sequence in which no node is labelled \<open>ROOT\<close>
  beforehand. Provided that no rule of the table carries the label \<open>ROOT\<close>, the reduction
  engine keeps the top-level nodes labelled \<open>ROOT\<close> as they are (same nodes, same order,
  same label) and keeps the number of nodes labelled \<open>ROOT\<close> in the whole forest.
\<close>

theorem at_most_one_root:
  "length (filter isRoot (identifyRoot cj nodes)) \<le> length (filter isRoot nodes) + 1
   \<and> ((\<forall>n \<in> set nodes. \<not> isRoot n) \<longrightarrow> length (filter isRoot (identifyRoot cj nodes)) \<le> 1)
   \<and> ((identifyRoot cj nodes = nodes \<and> (\<forall>j < length nodes. skipped cj nodes j))
       \<or> (\<exists>k < length nodes. \<not> skipped cj nodes k \<and> (\<forall>j < k. skipped cj nodes j)
             \<and> identifyRoot cj nodes = nodes[k := setLabel ''ROOT'' (nodes ! k)]))
   \<and> ((\<forall>d \<in> set rels. rel_label d \<noteq> ''ROOT'') \<longrightarrow>
        topRoots (buildRelationships rels cj ns recursionLimit) = topRoots ns
        \<and> forestRoots (buildRelationships rels cj ns recursionLimit) = forestRoots ns)"
proof (intro conjI impI)
  show le: "length (filter isRoot (identifyRoot cj nodes)) \<le> length (filter isRoot nodes) + 1"
    by (rule identifyRoot_roots_le)
  assume "\<forall>n \<in> set nodes. \<not> isRoot n"
  then have "filter isRoot nodes = []" by (simp add: filter_empty_conv)
  then show "length (filter isRoot (identifyRoot cj nodes)) \<le> 1" using le by simp
next
  show "(identifyRoot cj nodes = nodes \<and> (\<forall>j < length nodes. skipped cj nodes j))
       \<or> (\<exists>k < length nodes. \<not> skipped cj nodes k \<and> (\<forall>j < k. skipped cj nodes j)
             \<and> identifyRoot cj nodes = nodes[k := setLabel ''ROOT'' (nodes ! k)])"
    by (rule identifyRoot_first)
next
  assume "\<forall>d \<in> set rels. rel_label d \<noteq> ''ROOT''"
  then show "forestRoots (buildRelationships rels cj ns recursionLimit) = forestRoots ns"
    by (rule buildRelationships_forestRoots)
next
  show "topRoots (buildRelationships rels cj ns recursionLimit) = topRoots ns"
    by (rule buildRelationships_topRoots)
qed

text \<open>
  An instance: \<open>dogs cats chased mice\<close>, where \<open>chased\<close> is the only root before and after
  the reduction.
\<close>

theorem at_most_one_root_witness:
  "list_all (\<lambda>n. \<not> isRoot n) ex_sentence
   \<and> length (filter isRoot (identifyRoot sampleConj ex_sentence)) \<le> 1
   \<and> list_all (\<lambda>d. rel_label d \<noteq> ''ROOT'') [ex_subj, ex_obj]
   \<and> topRoots (buildRelationships [ex_subj, ex_obj] sampleConj (identifyRoot sampleConj ex_sentence) 3)
       = [(''VP'', [''VBD''], [''chased''], (2, 2), Some ''ROOT'')]
   \<and> forestRoots (buildRelationships [ex_subj, ex_obj] sampleConj
        (identifyRoot sampleConj ex_sentence) 3) = 1"
  using at_most_one_root [of sampleConj ex_sentence "[ex_subj, ex_obj]"
      "identifyRoot sampleConj ex_sentence" 3]
  by (simp add: ex_identifyRoot list_all_iff)
     (simp add: ex_subj_def ex_obj_def ex_sentence_def ex_tok_def ex_rule_def
        setLabel_def isRoot_def shallow_def)

text \<open>
  The claim as stated, for every input node sequence, fails: when a node of the input is
  already labelled \<open>ROOT\<close> and a later node qualifies, two nodes bear the label after the
  root identifier.
\<close>

theorem at_most_one_root_counterexample:
  "length (filter isRoot (identifyRoot sampleConj
      [Node ''NP'' [''NN''] [''cat''] (0, 0) (Some ''ROOT'') [] [],
       ex_tok ''VP'' ''VBD'' ''ran'' 1])) = 2"
  by code_simp

subsection \<open>C5: a single subject\<close>

text \<open>
  C5 (amended). The matcher rejects a \<open>->\<close> rule labelled \<open>NSUBJ\<close> or \<open>NSUBJPASS\<close> whenever the
  left children of the right node already hold a node with that label. Hence, provided
  that every node of the input (at any depth) has at most one left child labelled \<open>NSUBJ\<close>
  and at most one labelled \<open>NSUBJPASS\<close>, as is the case when the input nodes have no
  children, every node reachable in the result has at most one left child labelled
  \<open>NSUBJ\<close> and at most one labelled \<open>NSUBJPASS\<close>.
\<close>

theorem single_subject:
  "(rel_direction rel = ''->'' \<and> (rel_label rel = ''NSUBJ'' \<or> rel_label rel = ''NSUBJPASS'')
      \<and> findBy_label (rel_label rel) (left r) \<longrightarrow> rejects cj rel l r iteration)
   \<and> ((\<forall>n \<in> set nodes. singleSubject n)
      \<longrightarrow> (\<forall>n \<in> set (relating rels cj nodes recursionLimit). singleSubject n))"
proof (intro conjI impI)
  assume "rel_direction rel = ''->'' \<and> (rel_label rel = ''NSUBJ'' \<or> rel_label rel = ''NSUBJPASS'')
      \<and> findBy_label (rel_label rel) (left r)"
  then show "rejects cj rel l r iteration"
    by (elim disjE conjE) (simp_all add: rejects_def)
next
  assume "\<forall>n \<in> set nodes. singleSubject n"
  then show "\<forall>n \<in> set (relating rels cj nodes recursionLimit). singleSubject n"
    by (rule relating_singleSubject)
qed

text \<open>
  An instance: once \<open>chased\<close> has the subject \<open>cats\<close>, the subject rule is rejected for \<open>dogs\<close>.
\<close>

theorem single_subject_witness:
  "rel_direction ex_subj = ''->'' \<and> rel_label ex_subj = ''NSUBJ''
   \<and> findBy_label (rel_label ex_subj)
        (left (pushLeft (setLabel ''NSUBJ'' (ex_tok ''NP'' ''NNS'' ''cats'' 1))
                 (ex_tok ''VP'' ''VBD'' ''chased'' 2)))
   \<and> rejects sampleConj ex_subj (ex_tok ''NP'' ''NNS'' ''dogs'' 0)
        (pushLeft (setLabel ''NSUBJ'' (ex_tok ''NP'' ''NNS'' ''cats'' 1))
           (ex_tok ''VP'' ''VBD'' ''chased'' 2)) 0
   \<and> list_all singleSubject ex_sentence
   \<and> list_all singleSubject (relating [ex_subj, ex_obj] sampleConj ex_sentence 3)"
  using single_subject [of ex_subj
      "pushLeft (setLabel ''NSUBJ'' (ex_tok ''NP'' ''NNS'' ''cats'' 1)) (ex_tok ''VP'' ''VBD'' ''chased'' 2)"
      sampleConj "ex_tok ''NP'' ''NNS'' ''dogs'' 0" 0 ex_sentence "[ex_subj, ex_obj]" 3]
  by (simp add: list_all_iff)
     (simp add: ex_subj_def ex_obj_def ex_sentence_def ex_tok_def ex_rule_def
        findBy_label_def setLabel_def pushLeft_def)

text \<open>
  The claim as stated, for every final result, fails: two left children labelled \<open>NSUBJ\<close>
  in a node of the input are still there in the result.
\<close>

theorem single_subject_counterexample:
  "relating [ex_subj, ex_obj] sampleConj
       [Node ''VP'' [''VBD''] [''ran''] (2, 2) None
          [Node ''NP'' [''NN''] [''cat''] (0, 0) (Some ''NSUBJ'') [] [],
           Node ''NP'' [''NN''] [''dog''] (1, 1) (Some ''NSUBJ'') [] []] []] 1
     = [Node ''VP'' [''VBD''] [''ran''] (2, 2) (Some ''ROOT'')
          [Node ''NP'' [''NN''] [''cat''] (0, 0) (Some ''NSUBJ'') [] [],
           Node ''NP'' [''NN''] [''dog''] (1, 1) (Some ''NSUBJ'') [] []] []]
   \<and> \<not> list_all singleSubject (relating [ex_subj, ex_obj] sampleConj
            [Node ''VP'' [''VBD''] [''ran''] (2, 2) None
               [Node ''NP'' [''NN''] [''cat''] (0, 0) (Some ''NSUBJ'') [] [],
                Node ''NP'' [''NN''] [''dog''] (1, 1) (Some ''NSUBJ'') [] []] []] 1)"
  by code_simp

subsection \<open>C6: maximum distance\<close>

text \<open>
  C6. For every rule whose \<open>maxDistance\<close> is not \<open>-1\<close>, the matcher rejects the pair whenever
  \<open>right.index[0] - left.index[1] - 1\<close> exceeds \<open>maxDistance\<close>: the rule is passed over in the
  table, and the rule the matcher settles on always respects its distance bound. In
  particular a table whose rules all have \<open>maxDistance = 0\<close> never matches a left node
  spanning \<open>[0,1)\<close> with a right node spanning \<open>[3,4)\<close>, whatever their types, labels and
  tokens.
\<close>

theorem maxDistance_rejects:
  "(rel_maxDistance rel \<noteq> - 1 \<and> fst (index r) - snd (index l) - 1 > rel_maxDistance rel
      \<longrightarrow> rejects cj rel l r iteration
          \<and> matchNodes (pre @ rel # post) cj l r iteration
              = matchNodes (pre @ post) cj l r iteration)
   \<and> (matchLoop cj tbl l r iteration = Some m
      \<longrightarrow> rel_maxDistance m = - 1 \<or> fst (index r) - snd (index l) - 1 \<le> rel_maxDistance m)
   \<and> ((\<forall>d \<in> set rels. rel_maxDistance d = 0) \<and> index l' = (0, 1) \<and> index r' = (3, 4)
      \<longrightarrow> matchNodes rels cj l' r' iteration = None)"
proof (intro conjI impI)
  assume a: "rel_maxDistance rel \<noteq> - 1
             \<and> fst (index r) - snd (index l) - 1 > rel_maxDistance rel"
  then show rj: "rejects cj rel l r iteration" by (simp add: distance_rejects)
  show "matchNodes (pre @ rel # post) cj l r iteration = matchNodes (pre @ post) cj l r iteration"
    by (simp add: matchNodes_def matchLoop_skip_rejected [OF rj])
next
  assume "matchLoop cj tbl l r iteration = Some m"
  then have "\<not> rejects cj m l r iteration" by (simp add: matchLoop_SomeD)
  then show "rel_maxDistance m = - 1 \<or> fst (index r) - snd (index l) - 1 \<le> rel_maxDistance m"
    using distance_rejects [of m r l cj iteration] by force
next
  assume a: "(\<forall>d \<in> set rels. rel_maxDistance d = 0) \<and> index l' = (0, 1) \<and> index r' = (3, 4)"
  have "matchLoop cj rels l' r' iteration = None"
  proof (cases "matchLoop cj rels l' r' iteration")
    case (Some m)
    then have "m \<in> set rels" "\<not> rejects cj m l' r' iteration" by (simp_all add: matchLoop_SomeD)
    moreover have "rejects cj m l' r' iteration"
      using a \<open>m \<in> set rels\<close> by (intro distance_rejects) auto
    ultimately show ?thesis by simp
  qed simp
  then show "matchNodes rels cj l' r' iteration = None" by (simp add: matchNodes_def)
qed

text \<open>
  An instance: the rule \<open>ex_near\<close> with \<open>maxDistance = 0\<close> in front of an unconstrained rule.
\<close>

theorem maxDistance_rejects_witness:
  "(rel_maxDistance ex_near \<noteq> - 1
      \<and> fst (index (ex_span 3 4)) - snd (index (ex_span 0 1)) - 1 > rel_maxDistance ex_near)
   \<and> rejects sampleConj ex_near (ex_span 0 1) (ex_span 3 4) 5
   \<and> matchNodes ([] @ ex_near # [ex_rule [] [] ''->'' ''NSUBJ'']) sampleConj (ex_span 0 1) (ex_span 3 4) 5
       = matchNodes ([] @ [ex_rule [] [] ''->'' ''NSUBJ'']) sampleConj (ex_span 0 1) (ex_span 3 4) 5
   \<and> matchLoop sampleConj [ex_near, ex_rule [] [] ''->'' ''NSUBJ''] (ex_span 0 1) (ex_span 3 4) 5
       = Some (ex_rule [] [] ''->'' ''NSUBJ'')
   \<and> rel_maxDistance ex_near = 0
   \<and> index (ex_span 0 1) = (0, 1) \<and> index (ex_span 3 4) = (3, 4)
   \<and> matchNodes [ex_near, ex_near] sampleConj (ex_span 0 1) (ex_span 3 4) 5 = None"
  using maxDistance_rejects [of ex_near "ex_span 3 4" "ex_span 0 1" sampleConj 5 "[]"
      "[ex_rule [] [] ''->'' ''NSUBJ'']" "[ex_near, ex_rule [] [] ''->'' ''NSUBJ'']"
      "ex_rule [] [] ''->'' ''NSUBJ''" "[ex_near, ex_near]" "ex_span 0 1" "ex_span 3 4"]
  by (simp add: ex_near_def ex_span_def ex_rule_def rejects_def findBy_label_def)

subsection \<open>C7: termination within the cap\<close>

text \<open>
  C7. For every input and every non-negative cap the reduction engine returns (the loop
  is a total function) after at most \<open>cap\<close> passes. With a cap of \<open>0\<close> the engine returns the
  sequence it is given, so the entry point returns the result of the root identifier:
  the same nodes in the same order with the same children, where at most one node has
  had its label set to \<open>ROOT\<close>.
\<close>

theorem buildRelationships_cap:
  "(0 \<le> cap \<longrightarrow> 0 \<le> fst (buildLoop rels cj 0 cap nodes)
                \<and> fst (buildLoop rels cj 0 cap nodes) \<le> cap)
   \<and> buildRelationships rels cj nodes 0 = nodes
   \<and> relating rels cj nodes 0 = identifyRoot cj nodes
   \<and> length (relating rels cj nodes 0) = length nodes
   \<and> map unlabel (relating rels cj nodes 0) = map unlabel nodes
   \<and> (relating rels cj nodes 0 = nodes
       \<or> (\<exists>k < length nodes. relating rels cj nodes 0 = nodes[k := setLabel ''ROOT'' (nodes ! k)]))"
proof -
  have b: "buildRelationships rels cj ns 0 = ns" for ns
    by (simp add: buildRelationships_def buildLoop_no_pass)
  have r: "relating rels cj nodes 0 = identifyRoot cj nodes"
    by (simp add: relating_def b)
  show ?thesis
    using buildLoop_count [of 0 cap rels cj nodes] identifyRoot_shape [of cj nodes]
    by (simp add: b r identifyRoot_unlabel)
qed

text \<open>
  An instance: a cap of \<open>2\<close>, and a cap of \<open>0\<close> on a sequence without a candidate verb.
\<close>

theorem buildRelationships_cap_witness:
  "(0::int) \<le> 2
   \<and> fst (buildLoop [ex_rule [''NP''] [] ''->'' ''NSUBJ''] sampleConj 0 2 [ex_np, ex_vbz]) \<le> 2
   \<and> relating [ex_rule [''NP''] [] ''->'' ''NSUBJ''] sampleConj [ex_np, ex_vbz] 0 = [ex_np, ex_vbz]"
  using buildRelationships_cap [of 2 "[ex_rule [''NP''] [] ''->'' ''NSUBJ'']" sampleConj "[ex_np, ex_vbz]"]
  by (simp add: ex_eval)

subsection \<open>C8: malformed input\<close>

text \<open>
  C8. On an empty node sequence the entry point makes no pass and returns the empty
  sequence. With a non-positive recursion limit it makes no pass either: the result is
  the result of the root identifier, which differs from the input in labels only.
\<close>

theorem relating_malformed_input:
  "relating rels cj [] recursionLimit = []
   \<and> buildLoop rels cj 0 recursionLimit [] = (0, [])
   \<and> (recursionLimit \<le> 0 \<longrightarrow>
        buildLoop rels cj 0 recursionLimit (identifyRoot cj nodes) = (0, identifyRoot cj nodes)
        \<and> relating rels cj nodes recursionLimit = identifyRoot cj nodes
        \<and> map unlabel (relating rels cj nodes recursionLimit) = map unlabel nodes)"
  by (simp add: relating_def buildRelationships_def buildLoop_no_pass identifyRoot_unlabel)

text \<open>
  An instance: a recursion limit of \<open>-3\<close>, on the empty sequence and on a two-node sequence
  that a rule of the table would otherwise reduce.
\<close>

theorem relating_malformed_input_witness:
  "(- 3 :: int) \<le> 0
   \<and> relating [ex_rule [''NP''] [] ''->'' ''NSUBJ''] sampleConj [] (- 3) = []
   \<and> relating [ex_rule [] [] ''->'' ''NSUBJ''] sampleConj
        [ex_tok ''NP'' ''PRP'' ''they'' 0, ex_tok ''VP'' ''VBD'' ''ran'' 1] (- 3)
       = [ex_tok ''NP'' ''PRP'' ''they'' 0, setLabel ''ROOT'' (ex_tok ''VP'' ''VBD'' ''ran'' 1)]"
  using relating_malformed_input [of "[ex_rule [''NP''] [] ''->'' ''NSUBJ'']" sampleConj "- 3"
      "[ex_tok ''NP'' ''PRP'' ''they'' 0, ex_tok ''VP'' ''VBD'' ''ran'' 1]"]
    relating_malformed_input [of "[ex_rule [] [] ''->'' ''NSUBJ'']" sampleConj "- 3"
      "[ex_tok ''NP'' ''PRP'' ''they'' 0, ex_tok ''VP'' ''VBD'' ''ran'' 1]"]
  by (simp add: ex_eval)

subsection \<open>C9: contractions are expanded before conjugation\<close>

text \<open>
  C9. Every token-lemma comparison works on the first token expanded by \<open>deContract\<close> and
  then conjugated. The table of contractions maps \<open>'m\<close>, \<open>'s\<close>, \<open>'d\<close>, \<open>'ll\<close>, \<open>'re\<close>, \<open>'ve\<close> to
  \<open>am\<close>, \<open>is\<close>, \<open>would\<close>, \<open>will\<close>, \<open>are\<close>, \<open>have\<close> and leaves every other token unchanged; the
  lemma of a node is the conjugator applied to the expanded first token, so \<open>'ll\<close> is
  compared as the conjugation of \<open>will\<close>; the \<open>leftTokens\<close> and \<open>rightTokens\<close> checks of the
  matcher and the auxiliary-lemma check of the root identifier (source line 66) compare
  that lemma.
\<close>

theorem tokens_deContract_then_conjugate:
  "deContract (CHR 0x27 # ''m'') = ''am'' \<and> deContract (CHR 0x27 # ''s'') = ''is''
   \<and> deContract (CHR 0x27 # ''d'') = ''would'' \<and> deContract (CHR 0x27 # ''ll'') = ''will''
   \<and> deContract (CHR 0x27 # ''re'') = ''are'' \<and> deContract (CHR 0x27 # ''ve'') = ''have''
   \<and> (token \<notin> set contractions \<longrightarrow> deContract token = token)
   \<and> (tokens n = t # ts \<longrightarrow> lemmaOf cj n = cj (Some (deContract t)))
   \<and> (tokens n' = (CHR 0x27 # ''ll'') # ts' \<longrightarrow> lemmaOf cj n' = cj (Some ''will''))
   \<and> (rejects cj rel l r iteration \<longleftrightarrow>
        rejects cj (rel\<lparr>rel_leftTokens := [], rel_rightTokens := []\<rparr>) l r iteration
        \<or> (rel_leftTokens rel \<noteq> [] \<and> lemmaOf cj l \<notin> set (rel_leftTokens rel))
        \<or> (rel_rightTokens rel \<noteq> [] \<and> lemmaOf cj r \<notin> set (rel_rightTokens rel)))
   \<and> (skipLine cj node nx1 nx2 nx3 = Some 66
        \<longrightarrow> (\<exists>n1. nx1 = Some n1 \<and> lemmaOf cj n1 \<in> set oe))"
proof (intro conjI impI)
  show "rejects cj rel l r iteration \<longleftrightarrow>
        rejects cj (rel\<lparr>rel_leftTokens := [], rel_rightTokens := []\<rparr>) l r iteration
        \<or> (rel_leftTokens rel \<noteq> [] \<and> lemmaOf cj l \<notin> set (rel_leftTokens rel))
        \<or> (rel_rightTokens rel \<noteq> [] \<and> lemmaOf cj r \<notin> set (rel_rightTokens rel))"
    by (rule rejects_tokens)
next
  assume "skipLine cj node nx1 nx2 nx3 = Some 66"
  then show "\<exists>n1. nx1 = Some n1 \<and> lemmaOf cj n1 \<in> set oe" by (rule skipLine_66D)
next
  assume "token \<notin> set contractions"
  then show "deContract token = token" by (rule deContract_other)
qed (simp_all add: deContract_def contractions_def replacements_def lemmaOf_def first_def)

text \<open>
  An instance: the tokens \<open>cat\<close>, \<open>is\<close> and \<open>'ll\<close>, and a verb followed by \<open>'ll\<close> and a base verb.
\<close>

theorem tokens_deContract_then_conjugate_witness:
  "''cat'' \<notin> set contractions \<and> deContract ''cat'' = ''cat''
   \<and> tokens (ex_tok ''VBZ'' ''VBZ'' ''is'' 1) = ''is'' # []
   \<and> lemmaOf sampleConj (ex_tok ''VBZ'' ''VBZ'' ''is'' 1) = ''be''
   \<and> tokens (ex_tok ''MD'' ''MD'' (CHR 0x27 # ''ll'') 2) = (CHR 0x27 # ''ll'') # []
   \<and> lemmaOf sampleConj (ex_tok ''MD'' ''MD'' (CHR 0x27 # ''ll'') 2) = ''will''
   \<and> skipLine sampleConj (ex_tok ''VP'' ''VBP'' ''want'' 1)
        (Some (ex_tok ''MD'' ''MD'' (CHR 0x27 # ''ll'') 2)) (Some (ex_tok ''VB'' ''VB'' ''go'' 3)) None
       = Some 66
   \<and> (\<exists>n1. Some (ex_tok ''MD'' ''MD'' (CHR 0x27 # ''ll'') 2) = Some n1 \<and> lemmaOf sampleConj n1 \<in> set oe)"
  using tokens_deContract_then_conjugate [of "''cat''" "ex_tok ''VBZ'' ''VBZ'' ''is'' 1" "''is''" "[]"
      sampleConj "ex_tok ''MD'' ''MD'' (CHR 0x27 # ''ll'') 2" "[]"
      "ex_rule [] [] ''->'' ''NSUBJ''" ex_np ex_vbz 0
      "ex_tok ''VP'' ''VBP'' ''want'' 1" "Some (ex_tok ''MD'' ''MD'' (CHR 0x27 # ''ll'') 2)"
      "Some (ex_tok ''VB'' ''VB'' ''go'' 3)" None]
  by (simp add: ex_tok_def contractions_def sampleConj_def skipLine_def found_def vbs_def pa_def
        first_def oe_def lemmaOf_def deContract_def replacements_def)

subsection \<open>C10: a candidate verb in last position\<close>

text \<open>
  C10. A candidate verb with no node after it is never skipped, whatever its first tag.
  Hence, when the root identifier marks no node before the last one and the type of the
  last node is \<open>VP\<close>, \<open>VB\<close> or \<open>VBN\<close>, the last node is marked \<open>ROOT\<close>.
\<close>

theorem last_verb_marked_root:
  "(found vbs (Some (type node)) \<longrightarrow> skipLine cj node None nx2 nx3 = None)
   \<and> (nodes \<noteq> [] \<and> found vbs (Some (type (last nodes)))
        \<and> (\<forall>i < length nodes - 1. label (identifyRoot cj nodes ! i) \<noteq> Some ''ROOT'')
      \<longrightarrow> identifyRoot cj nodes = nodes[length nodes - 1 := setLabel ''ROOT'' (last nodes)]
          \<and> label (last (identifyRoot cj nodes)) = Some ''ROOT'')"
proof (intro conjI impI)
  assume "found vbs (Some (type node))"
  then show "skipLine cj node None nx2 nx3 = None" by (rule skipLine_no_next)
next
  assume a: "nodes \<noteq> [] \<and> found vbs (Some (type (last nodes)))
        \<and> (\<forall>i < length nodes - 1. label (identifyRoot cj nodes ! i) \<noteq> Some ''ROOT'')"
  then have ne: "nodes \<noteq> []" and vb: "found vbs (Some (type (last nodes)))"
    and un: "\<forall>i < length nodes - 1. label (identifyRoot cj nodes ! i) \<noteq> Some ''ROOT''"
    by simp_all
  let ?n = "length nodes - 1"
  have n: "?n < length nodes" using ne by simp
  have lastn: "nodes ! ?n = last nodes" using ne by (simp add: last_conv_nth)
  have "nodeAt nodes (?n + 1) = None" using ne by (simp add: nodeAt_def)
  then have nsk: "\<not> skipped cj nodes ?n"
    using vb by (simp only: skipped_def lastn skipLine_no_next) simp
  show eq: "identifyRoot cj nodes = nodes[?n := setLabel ''ROOT'' (last nodes)]"
  proof (cases rule: identifyRoot_cases [of cj nodes])
    case none
    then show ?thesis using nsk n by blast
  next
    case (mark k)
    have "k = ?n"
    proof (rule ccontr)
      assume "k \<noteq> ?n"
      then have "k < ?n" using mark(1) by arith
      then have "label (identifyRoot cj nodes ! k) \<noteq> Some ''ROOT''" using un by blast
      then show False using mark(1,4) by simp
    qed
    then show ?thesis using mark(4) lastn by simp
  qed
  show "label (last (identifyRoot cj nodes)) = Some ''ROOT''"
    using n ne by (simp add: eq last_conv_nth)
qed

text \<open>
  An instance: \<open>will run\<close>, where \<open>will\<close> is skipped as an auxiliary and \<open>run\<close>, whose first tag
  \<open>VB\<close> is a possible-auxiliary tag, is marked.
\<close>

theorem last_verb_marked_root_witness:
  "found vbs (Some (type (ex_tok ''VB'' ''VB'' ''run'' 1)))
   \<and> [ex_tok ''VP'' ''MD'' ''will'' 0, ex_tok ''VB'' ''VB'' ''run'' 1] \<noteq> []
   \<and> found vbs (Some (type (last [ex_tok ''VP'' ''MD'' ''will'' 0, ex_tok ''VB'' ''VB'' ''run'' 1])))
   \<and> label (identifyRoot sampleConj
                [ex_tok ''VP'' ''MD'' ''will'' 0, ex_tok ''VB'' ''VB'' ''run'' 1] ! 0) \<noteq> Some ''ROOT''
   \<and> skipLine sampleConj (ex_tok ''VB'' ''VB'' ''run'' 1) None None None = None
   \<and> identifyRoot sampleConj [ex_tok ''VP'' ''MD'' ''will'' 0, ex_tok ''VB'' ''VB'' ''run'' 1]
       = [ex_tok ''VP'' ''MD'' ''will'' 0, setLabel ''ROOT'' (ex_tok ''VB'' ''VB'' ''run'' 1)]
   \<and> label (last (identifyRoot sampleConj
         [ex_tok ''VP'' ''MD'' ''will'' 0, ex_tok ''VB'' ''VB'' ''run'' 1])) = Some ''ROOT''"
  using last_verb_marked_root [of "ex_tok ''VB'' ''VB'' ''run'' 1" sampleConj None None
      "[ex_tok ''VP'' ''MD'' ''will'' 0, ex_tok ''VB'' ''VB'' ''run'' 1]"]
  by (simp add: ex_eval)

end
